theory Spec2Isabelle
  imports Main
begin

text \<open>
  The monitoring console of the repository, as three scripts have it:
  \<^item> \<open>src/frontend/app.js\<close>: \<open>updateCharts\<close> (lines 183 to 228) and \<open>refreshAlerts\<close>
    (lines 266 to 321), with the handler of the clear button (lines 403 to 417);
  \<^item> \<open>src/unnamed/part_001\<close>: \<open>applyFilters\<close> (lines 27 to 60) and the click handler
    of the detection button (lines 65 to 110);
  \<^item> \<open>src/frontend/sidebar-toggle.js\<close> holds the same \<open>refreshAlerts\<close>, \<open>applyFilters\<close>
    and click handler once more.
\<close>

section \<open>Data model\<close>

text \<open>
  An alert as the backend sends it (\<open>GET /alerts\<close>, and the \<open>analyzed_events\<close> of
  \<open>POST /detect\<close>). Only the fields that the modelled code branches on are kept:
  \<open>threat_score\<close> and \<open>action_taken\<close> are read by the HTML templates alone.
  \<^item> \<open>source_ip\<close> is \<open>None\<close> when the field is missing, \<open>null\<close> or \<open>undefined\<close>;
  \<^item> \<open>timestamp\<close> is the instant \<open>new Date(a.timestamp)\<close> denotes, in milliseconds
    (timestamps that do not parse are outside the model);
  \<^item> strings are ASCII text, one \<open>char\<close> per code unit.
\<close>

record alert =
  log_id :: string
  source_ip :: "string option"
  threat_label :: string
  timestamp :: int

section \<open>Alert feed: the \<open>forEach\<close> of \<open>refreshAlerts\<close>\<close>

text \<open>\<open>src/frontend/app.js\<close>, lines 280 to 314, and lines 403 to 411 for the clear.\<close>

text \<open>
  The child nodes of \<open>$alertsList\<close>, first child first. \<open>children\<close> counts element
  nodes only, \<open>lastChild\<close> is the last node of any kind, so the three kinds of node
  that the list can hold are kept apart: the \<open>li\<close> of an alert, the placeholder
  \<open>li id="noAlerts"\<close>, and a text node (the white space of the markup).
\<close>

datatype node = AlertItem alert | NoAlertsItem | TextNode

fun is_element :: "node \<Rightarrow> bool" where
  "is_element TextNode = False"
| "is_element _ = True"

definition children_length :: "node list \<Rightarrow> nat" where
  "children_length ns = length (filter is_element ns)"

text \<open>
  \<open>while ($alertsList.children.length > 51) $alertsList.removeChild($alertsList.lastChild)\<close>.
  More than 51 element children means that the list is not empty, so \<open>lastChild\<close>
  is a node and each round removes one.
\<close>

function keep_max :: "node list \<Rightarrow> node list" where
  "keep_max ns = (if children_length ns > 51 then keep_max (butlast ns) else ns)"
  by pat_completeness auto
termination
proof (relation "measure length")
  show "wf (measure length)" by simp
next
  fix ns :: "node list"
  assume "51 < children_length ns"
  then have "ns \<noteq> []" by (auto simp: children_length_def)
  then show "(butlast ns, ns) \<in> measure length" by simp
qed

declare keep_max.simps [simp del]

record feed =
  knownAlertIds :: "string set"
  alertsList :: "node list"

text \<open>The body of \<open>alerts.forEach(a => ...)\<close>, one alert.\<close>

definition admit :: "feed \<Rightarrow> alert \<Rightarrow> feed" where
  "admit s a =
     (if log_id a \<in> knownAlertIds s then s
      else \<lparr>knownAlertIds = insert (log_id a) (knownAlertIds s),
            alertsList = keep_max (AlertItem a # alertsList s)\<rparr>)"

definition reconcile :: "feed \<Rightarrow> alert list \<Rightarrow> feed" where
  "reconcile s alerts = foldl admit s alerts"

text \<open>The alerts of one poll for which a row was created, in input order.\<close>

fun admitted :: "feed \<Rightarrow> alert list \<Rightarrow> alert list" where
  "admitted s [] = []"
| "admitted s (a # as) =
     (if log_id a \<in> knownAlertIds s then admitted s as
      else a # admitted (admit s a) as)"

text \<open>
  The click handler of \<open>$btnClearAlerts\<close>, once \<open>POST /alerts/clear\<close> has succeeded:
  \<open>knownAlertIds.clear()\<close>, and \<open>innerHTML\<close> set to a line break followed by the
  placeholder item.
\<close>

definition cleared :: feed where
  "cleared = \<lparr>knownAlertIds = {}, alertsList = [TextNode, NoAlertsItem]\<rparr>"

text \<open>The rendered feed: the alerts that have a row, newest first.\<close>

fun alert_rows :: "node list \<Rightarrow> alert list" where
  "alert_rows [] = []"
| "alert_rows (AlertItem a # ns) = a # alert_rows ns"
| "alert_rows (_ # ns) = alert_rows ns"

text \<open>
  The state the feed is meant to be in: no two rows carry the same \<open>log_id\<close>, and
  the \<open>log_id\<close> of every row is in \<open>knownAlertIds\<close>.
\<close>

definition feed_ok :: "feed \<Rightarrow> bool" where
  "feed_ok s = (distinct (map log_id (alert_rows (alertsList s))) \<and>
                list_all (\<lambda>r. log_id r \<in> knownAlertIds s) (alert_rows (alertsList s)))"

text \<open>Alerts with pairwise different \<open>log_id\<close>, for the worked examples.\<close>

definition sample_alert :: "nat \<Rightarrow> alert" where
  "sample_alert n = \<lparr>log_id = replicate n CHR ''i'', source_ip = None,
                      threat_label = ''Attack'', timestamp = int n\<rparr>"


section \<open>Result filter: \<open>applyFilters\<close>\<close>

text \<open>\<open>src/unnamed/part_001\<close>, lines 27 to 60.\<close>

text \<open>
  String primitives of the host language, on ASCII text. \<open>trim\<close> removes the white
  space of both ends (TAB, LF, VT, FF, CR and the space), \<open>toLowerCase\<close> maps \<open>A\<close> to
  \<open>Z\<close> onto \<open>a\<close> to \<open>z\<close>, and \<open>s.includes(t)\<close> holds when \<open>t\<close> occurs in \<open>s\<close> as
  a contiguous run of characters.
\<close>

definition is_white_space :: "char \<Rightarrow> bool" where
  "is_white_space c = (of_char c \<in> {9, 10, 11, 12, 13, 32 :: nat})"

definition trim :: "string \<Rightarrow> string" where
  "trim s = rev (dropWhile is_white_space (rev (dropWhile is_white_space s)))"

definition lower_char :: "char \<Rightarrow> char" where
  "lower_char c = (if 65 \<le> (of_char c :: nat) \<and> (of_char c :: nat) \<le> 90
                   then char_of (of_char c + 32 :: nat) else c)"

definition toLowerCase :: "string \<Rightarrow> string" where
  "toLowerCase s = map lower_char s"

fun str_includes :: "string \<Rightarrow> string \<Rightarrow> bool" where
  "str_includes [] t = (t = [])"
| "str_includes (c # s) t = (take (length t) (c # s) = t \<or> str_includes s t)"

text \<open>\<open>r.source_ip || ""\<close>: a missing, \<open>null\<close> or empty address reads as the empty string.\<close>

definition or_empty :: "string option \<Rightarrow> string" where
  "or_empty v = (case v of None \<Rightarrow> [] | Some s \<Rightarrow> s)"

text \<open>
  What \<open>applyFilters\<close> reads and writes: the module variable \<open>allDetectionResults\<close>, the
  values of the two filter inputs, the text of \<open>$resultsCount\<close>, and the body of the
  results table. The body is either the one-cell message row or one row per result; the
  markup of a row is a function of the record, so a row is the record.
\<close>

datatype detect_body = Message string | Rows "alert list"

record results_panel =
  allDetectionResults :: "alert list"
  filterThreat :: string
  filterIP :: string
  resultsCount :: nat
  detectBody :: detect_body

text \<open>The local \<open>filtered\<close> of \<open>applyFilters\<close>, after both filters.\<close>

definition filtered_results :: "'a results_panel_scheme \<Rightarrow> alert list" where
  "filtered_results p =
     (let filtered = allDetectionResults p;
          threatFilter = filterThreat p;
          filtered = (if threatFilter \<noteq> ''all''
                      then filter (\<lambda>r. threat_label r = threatFilter) filtered
                      else filtered);
          ipFilter = toLowerCase (trim (filterIP p));
          filtered = (if ipFilter \<noteq> []
                      then filter (\<lambda>r. str_includes (toLowerCase (or_empty (source_ip r))) ipFilter)
                             filtered
                      else filtered)
      in filtered)"

definition applyFilters :: "'a results_panel_scheme \<Rightarrow> 'a results_panel_scheme" where
  "applyFilters p =
     (let filtered = filtered_results p
      in p\<lparr>resultsCount := length filtered,
            detectBody :=
              (if length filtered = 0
               then Message (if length (allDetectionResults p) = 0
                             then ''No logs to analyze''
                             else ''No results match your filters'')
               else Rows filtered)\<rparr>)"

text \<open>The rows that the table shows.\<close>

definition view_rows :: "'a results_panel_scheme \<Rightarrow> alert list" where
  "view_rows p = (case detectBody p of Message _ \<Rightarrow> [] | Rows rs \<Rightarrow> rs)"

text \<open>
  The view as the specification words it: a result is kept when the threat label is
  \<open>all\<close> or equal to the result's label, and when the address filter is empty or
  occurs, letter case aside, in the result's source address.
\<close>

definition spec_label_matches :: "string \<Rightarrow> alert \<Rightarrow> bool" where
  "spec_label_matches threatLabel r = (threatLabel = ''all'' \<or> threat_label r = threatLabel)"

definition spec_ip_matches :: "string \<Rightarrow> alert \<Rightarrow> bool" where
  "spec_ip_matches ipSubstring r =
     (ipSubstring = [] \<or>
      str_includes (toLowerCase (or_empty (source_ip r))) (toLowerCase ipSubstring))"

definition spec_view :: "string \<Rightarrow> string \<Rightarrow> alert list \<Rightarrow> alert list" where
  "spec_view threatLabel ipSubstring R =
     filter (\<lambda>r. spec_label_matches threatLabel r \<and> spec_ip_matches ipSubstring r) R"

text \<open>A panel before its first rendering, and a result with a given address and label.\<close>

definition panel_of :: "alert list \<Rightarrow> string \<Rightarrow> string \<Rightarrow> results_panel" where
  "panel_of R threatLabel ipSubstring =
     \<lparr>allDetectionResults = R, filterThreat = threatLabel, filterIP = ipSubstring,
      resultsCount = 0, detectBody = Rows []\<rparr>"

definition ip_alert :: "string option \<Rightarrow> string \<Rightarrow> alert" where
  "ip_alert ip l = \<lparr>log_id = ''x'', source_ip = ip, threat_label = l, timestamp = 0\<rparr>"

section \<open>Series aggregator: \<open>updateCharts\<close>\<close>

text \<open>\<open>src/frontend/app.js\<close>, lines 183 to 228.\<close>

text \<open>
  The two chart objects, each \<open>None\<close> when its canvas is missing (\<open>initCharts\<close> then
  leaves the variable \<open>null\<close>). Of a chart only the data that \<open>updateCharts\<close> assigns is
  kept: the three counts of the doughnut, and the labels and the two series of the
  timeline.
\<close>

record timeline_chart =
  labels :: "string list"
  attackData :: "nat list"
  suspData :: "nat list"

record charts =
  threatChart :: "nat list option"
  timelineChart :: "timeline_chart option"

definition initCharts :: charts where
  "initCharts = \<lparr>threatChart = Some [0, 0, 0],
                  timelineChart = Some \<lparr>labels = [], attackData = [], suspData = []\<rparr>\<rparr>"

definition count_label :: "string \<Rightarrow> alert list \<Rightarrow> nat" where
  "count_label l as = length (filter (\<lambda>a. threat_label a = l) as)"

text \<open>\<open>xs.slice(b, e)\<close> for \<open>0 \<le> b \<le> e\<close>; both ends are clamped to the length.\<close>

definition slice :: "nat \<Rightarrow> nat \<Rightarrow> 'a list \<Rightarrow> 'a list" where
  "slice b e xs = take (e - b) (drop b xs)"

text \<open>
  \<open>Math.ceil(a / b)\<close> for an array length \<open>a\<close> and \<open>0 < b \<le> 10\<close>: the quotient of two
  such numbers is never rounded onto an integer, so the result is the exact ceiling.
\<close>

definition ceil_div :: "nat \<Rightarrow> nat \<Rightarrow> nat" where
  "ceil_div a b = (a + b - 1) div b"

text \<open>
  One round of \<open>for (let i = 0; i < bucketCount; i++)\<close>. The parameter \<open>fmt\<close> stands
  for \<open>new Date(.).toLocaleTimeString('en-US', {hour: '2-digit', minute: '2-digit'})\<close>,
  which depends on the time zone of the browser.
\<close>

definition bucket_step ::
  "(int \<Rightarrow> string) \<Rightarrow> alert list \<Rightarrow> nat \<Rightarrow> timeline_chart \<Rightarrow> nat \<Rightarrow> timeline_chart" where
  "bucket_step fmt sortedAlerts bucketSize acc i =
     (let bucketAlerts = slice (i * bucketSize) ((i + 1) * bucketSize) sortedAlerts
      in case bucketAlerts of
           [] \<Rightarrow> acc
         | first # _ \<Rightarrow>
             \<lparr>labels = labels acc @ [fmt (timestamp first)],
              attackData = attackData acc @ [count_label ''Attack'' bucketAlerts],
              suspData = suspData acc @ [count_label ''Suspicious'' bucketAlerts]\<rparr>)"

text \<open>
  \<open>updateCharts(alerts)\<close>. The sort is stable and compares the instants of the
  timestamps, which is \<open>sort_key timestamp\<close>.
\<close>

definition updateCharts :: "(int \<Rightarrow> string) \<Rightarrow> alert list \<Rightarrow> charts \<Rightarrow> charts" where
  "updateCharts fmt alerts c =
     (let attackCount = count_label ''Attack'' alerts;
          suspiciousCount = count_label ''Suspicious'' alerts;
          normalCount = count_label ''Normal'' alerts;
          c1 = (case threatChart c of
                  None \<Rightarrow> c
                | Some _ \<Rightarrow> c\<lparr>threatChart := Some [attackCount, suspiciousCount, normalCount]\<rparr>)
      in case timelineChart c1 of
           None \<Rightarrow> c1
         | Some _ \<Rightarrow>
             if length alerts > 0
             then let sortedAlerts = sort_key timestamp alerts;
                      bucketCount = min 10 (ceil_div (length alerts) 5);
                      bucketSize = ceil_div (length sortedAlerts) bucketCount
                  in c1\<lparr>timelineChart :=
                          Some (foldl (bucket_step fmt sortedAlerts bucketSize)
                                  \<lparr>labels = [], attackData = [], suspData = []\<rparr>
                                  [0..<bucketCount])\<rparr>
             else c1)"

text \<open>
  The timeline as the specification words it: the alerts sorted by timestamp are cut
  into consecutive chunks of \<open>bucketSize\<close> alerts (the last one may be shorter, none is
  empty), and each chunk gives the label of its first alert and its two tallies.
\<close>

function chunks :: "nat \<Rightarrow> 'a list \<Rightarrow> 'a list list" where
  "chunks bs xs = (if bs = 0 \<or> xs = [] then [] else take bs xs # chunks bs (drop bs xs))"
  by pat_completeness auto
termination
  by (relation "measure (\<lambda>(bs, xs). length xs)") auto

declare chunks.simps [simp del]

definition spec_bucketCount :: "nat \<Rightarrow> nat" where
  "spec_bucketCount n = min 10 (ceil_div n 5)"

definition spec_buckets :: "alert list \<Rightarrow> alert list list" where
  "spec_buckets alerts =
     (let sorted = sort_key timestamp alerts;
          n = length alerts;
          bucketSize = ceil_div n (spec_bucketCount n)
      in chunks bucketSize sorted)"

definition spec_timeline :: "(int \<Rightarrow> string) \<Rightarrow> alert list \<Rightarrow> timeline_chart" where
  "spec_timeline fmt alerts =
     (let buckets = spec_buckets alerts
      in \<lparr>labels = map (\<lambda>b. fmt (timestamp (hd b))) buckets,
          attackData = map (count_label ''Attack'') buckets,
          suspData = map (count_label ''Suspicious'') buckets\<rparr>)"

text \<open>
  A formatter for the worked examples: the \<open>en-US\<close> time of day, two digits for the
  hour and the minute, of a browser whose time zone is UTC. Seven alerts out of order.
\<close>

definition two_digits :: "nat \<Rightarrow> string" where
  "two_digits n = [char_of (48 + n div 10), char_of (48 + n mod 10)]"

definition clock_utc :: "int \<Rightarrow> string" where
  "clock_utc t =
     (let m = nat ((t div 60000) mod 1440); h = m div 60
      in two_digits (if h mod 12 = 0 then 12 else h mod 12) @ '':'' @ two_digits (m mod 60) @
         (if h < 12 then '' AM'' else '' PM''))"

definition timed_alert :: "int \<Rightarrow> string \<Rightarrow> alert" where
  "timed_alert t l = \<lparr>log_id = [], source_ip = None, threat_label = l, timestamp = t\<rparr>"

definition seven_alerts :: "alert list" where
  "seven_alerts =
     [timed_alert 3600000 ''Attack'', timed_alert 60000 ''Normal'',
      timed_alert 7200000 ''Suspicious'', timed_alert 120000 ''Attack'',
      timed_alert 43200000 ''Attack'', timed_alert 0 ''Suspicious'',
      timed_alert 180000 ''Attack'']"

section \<open>Job controller: the click handler of \<open>$btnDetect\<close>\<close>

text \<open>
  \<open>src/unnamed/part_001\<close>, lines 62 to 110. The handler of \<open>src/frontend/app.js\<close>
  (lines 365 to 397) has no \<open>detectionInProgress\<close> and no cancel branch: it disables
  the button for the time of a run; its reading of the limit is the same four lines.
\<close>

text \<open>
  \<open>await api(path)\<close> ends in one of two ways: the promise resolves with the parsed body,
  or it rejects with an \<open>Error\<close> (the request failed, or the status was not 2xx) whose
  message is kept.
\<close>

datatype 'a outcome = Resolved 'a | Rejected string

text \<open>
  The body of \<open>POST /detect\<close>. The handler reads \<open>analyzed_events\<close> with \<open>|| []\<close>, so
  the field may be missing; the counts and the flag are present, as the backend sends
  them.
\<close>

record detect_response =
  analyzed_events :: "alert list option"
  analyzed_count :: int
  total_logs :: int
  cancelled :: bool

text \<open>
  \<open>parseInt(s)\<close> with no radix: leading white space is skipped, then an optional sign,
  then an optional \<open>0x\<close> or \<open>0X\<close> that selects radix 16, then the longest run of
  digits of the radix; with no digit the result is \<open>NaN\<close>. Integers are exact here
  (the rounding of very long digit strings to a double is not modelled).
\<close>

definition digit_of :: "char \<Rightarrow> nat option" where
  "digit_of c =
     (let n = of_char c :: nat
      in if 48 \<le> n \<and> n \<le> 57 then Some (n - 48)
         else if 97 \<le> n \<and> n \<le> 122 then Some (n - 87)
         else if 65 \<le> n \<and> n \<le> 90 then Some (n - 55)
         else None)"

definition is_radix_digit :: "nat \<Rightarrow> char \<Rightarrow> bool" where
  "is_radix_digit R c = (case digit_of c of None \<Rightarrow> False | Some d \<Rightarrow> d < R)"

definition digits_value :: "nat \<Rightarrow> string \<Rightarrow> nat" where
  "digits_value R z = foldl (\<lambda>v c. v * R + (case digit_of c of None \<Rightarrow> 0 | Some d \<Rightarrow> d)) 0 z"

datatype js_number = NaN | Num int

definition parseInt :: "string \<Rightarrow> js_number" where
  "parseInt s =
     (let s1 = dropWhile is_white_space s;
          sign = (if take 1 s1 = ''-'' then - 1 else 1 :: int);
          s2 = (if take 1 s1 = ''-'' \<or> take 1 s1 = ''+'' then drop 1 s1 else s1);
          R = (if take 2 s2 = ''0x'' \<or> take 2 s2 = ''0X'' then 16 else 10 :: nat);
          s3 = (if take 2 s2 = ''0x'' \<or> take 2 s2 = ''0X'' then drop 2 s2 else s2);
          z = takeWhile (is_radix_digit R) s3
      in if z = [] then NaN else Num (sign * int (digits_value R z)))"

text \<open>
  The local \<open>limit\<close>: \<open>null\<close>, or what \<open>parseInt(userLimit)\<close> returned. The prompt is
  shown only above 10000 stored logs; \<open>answer\<close> is what it returns (\<open>None\<close> when the
  user cancels it). \<open>JSON.stringify\<close> writes both \<open>null\<close> and \<open>NaN\<close> as \<open>null\<close>.
\<close>

datatype js_limit = Null | Number js_number

definition read_limit :: "int \<Rightarrow> string option \<Rightarrow> js_limit" where
  "read_limit count answer =
     (if count > 10000
      then (case answer of
              None \<Rightarrow> Null
            | Some userLimit \<Rightarrow> if userLimit \<noteq> [] then Number (parseInt userLimit) else Null)
      else Null)"

fun json_limit :: "js_limit \<Rightarrow> int option" where
  "json_limit Null = None"
| "json_limit (Number NaN) = None"
| "json_limit (Number (Num n)) = Some n"

text \<open>
  What the handler does to the outside: the requests it sends, the \<open>alert\<close> boxes it
  opens and what it logs to the console.
\<close>

datatype request = GetLogsCount | PostDetect "int option" | PostDetectCancel

datatype notice = Stopped int int | Analyzed int | DetectionFailed string

datatype effect = Fetch request | Alert notice | ConsoleError string

text \<open>
  The handler is an \<open>async\<close> function. A call of it runs until its next \<open>await\<close> and
  is then suspended until the awaited request settles; \<open>tasks\<close> holds the suspended
  calls, each named by the request it awaits. The state is the module variables
  \<open>detectionInProgress\<close> and \<open>allDetectionResults\<close>, the panel of \<open>applyFilters\<close> and
  the button (its label and \<open>disabled\<close>; its colour classes are left out).
\<close>

datatype btn_label = RunDetection | StopAnalysis | Cancelling

datatype task = CancelTask | CountTask | DetectTask

record controller = results_panel +
  detectionInProgress :: bool
  btnLabel :: btn_label
  btnDisabled :: bool
  tasks :: "task list"

text \<open>
  The events of the page: a click on the button, a change of either filter input, and
  the settling of the request that the suspended call at an index awaits. With the
  count comes the answer that \<open>prompt\<close> would give.
\<close>

datatype event =
    Click
  | FilterThreatChange string
  | FilterIPInput string
  | CancelSettles nat "unit outcome"
  | CountSettles nat "int outcome" "string option"
  | DetectSettles nat "detect_response outcome"

definition awaiting :: "controller \<Rightarrow> nat \<Rightarrow> task \<Rightarrow> bool" where
  "awaiting c i t = (i < length (tasks c) \<and> tasks c ! i = t)"

definition drop_task :: "nat \<Rightarrow> controller \<Rightarrow> controller" where
  "drop_task i c = c\<lparr>tasks := take i (tasks c) @ drop (Suc i) (tasks c)\<rparr>"

text \<open>The \<open>finally\<close> block of the handler.\<close>

definition finally_block :: "controller \<Rightarrow> controller" where
  "finally_block c = c\<lparr>detectionInProgress := False, btnDisabled := False, btnLabel := RunDetection\<rparr>"

text \<open>
  One event. A settling that names no suspended call of its kind cannot happen and
  changes nothing.
\<close>

fun step :: "controller \<Rightarrow> event \<Rightarrow> controller \<times> effect list" where
  "step c Click =
     (if detectionInProgress c
      then (c\<lparr>tasks := tasks c @ [CancelTask]\<rparr>, [Fetch PostDetectCancel])
      else (c\<lparr>detectionInProgress := True, btnLabel := StopAnalysis,
              tasks := tasks c @ [CountTask]\<rparr>,
            [Fetch GetLogsCount]))"
| "step c (FilterThreatChange v) = (applyFilters (c\<lparr>filterThreat := v\<rparr>), [])"
| "step c (FilterIPInput v) = (applyFilters (c\<lparr>filterIP := v\<rparr>), [])"
| "step c (CancelSettles i r) =
     (if awaiting c i CancelTask
      then (case r of
              Resolved _ \<Rightarrow> ((drop_task i c)\<lparr>btnLabel := Cancelling\<rparr>, [])
            | Rejected err \<Rightarrow> (drop_task i c, [ConsoleError err]))
      else (c, []))"
| "step c (CountSettles i r answer) =
     (if awaiting c i CountTask
      then (case r of
              Resolved count \<Rightarrow>
                (c\<lparr>tasks := (tasks c)[i := DetectTask]\<rparr>,
                 [Fetch (PostDetect (json_limit (read_limit count answer)))])
            | Rejected err \<Rightarrow>
                (finally_block (drop_task i c), [Alert (DetectionFailed err)]))
      else (c, []))"
| "step c (DetectSettles i r) =
     (if awaiting c i DetectTask
      then (case r of
              Resolved response \<Rightarrow>
                (finally_block (applyFilters ((drop_task i c)
                   \<lparr>allDetectionResults :=
                      (case analyzed_events response of None \<Rightarrow> [] | Some es \<Rightarrow> es)\<rparr>)),
                 [Alert (if cancelled response
                         then Stopped (analyzed_count response) (total_logs response)
                         else Analyzed (analyzed_count response))])
            | Rejected err \<Rightarrow>
                (finally_block (drop_task i c), [Alert (DetectionFailed err)]))
      else (c, []))"

text \<open>A sequence of events from a state, and the state of the page once loaded.\<close>

definition run :: "controller \<Rightarrow> event list \<Rightarrow> controller" where
  "run c es = foldl (\<lambda>c e. fst (step c e)) c es"

definition page_loaded :: controller where
  "page_loaded =
     \<lparr>allDetectionResults = [], filterThreat = ''all'', filterIP = [],
      resultsCount = 0, detectBody = Rows [],
      detectionInProgress = False, btnLabel = RunDetection, btnDisabled = False, tasks = []\<rparr>"

text \<open>
  A detection run is in flight while a call of the handler is suspended at
  \<open>/logs/count\<close> or at \<open>/detect\<close>.
\<close>

fun is_run :: "task \<Rightarrow> bool" where
  "is_run CancelTask = False"
| "is_run _ = True"

definition runs_in_flight :: "controller \<Rightarrow> nat" where
  "runs_in_flight c = length (filter is_run (tasks c))"

definition one_run :: "controller \<Rightarrow> bool" where
  "one_run c = (runs_in_flight c = (if detectionInProgress c then 1 else 0))"

text \<open>A response to a cancelled run, for the worked examples.\<close>

definition partial_result :: detect_response where
  "partial_result = \<lparr>analyzed_events = Some [ip_alert (Some ''10.0.0.1'') ''Attack''],
                      analyzed_count = 1, total_logs = 5, cancelled = True\<rparr>"

section \<open>Properties of the alert feed\<close>

lemma known_admit: "knownAlertIds (admit s a) = insert (log_id a) (knownAlertIds s)"
  by (auto simp: admit_def)

lemma known_reconcile: "knownAlertIds (reconcile s L) = knownAlertIds s \<union> log_id ` set L"
  unfolding reconcile_def by (induction L arbitrary: s) (auto simp: known_admit)

lemma reconcile_Cons: "reconcile s (a # L) = reconcile (admit s a) L"
  by (simp add: reconcile_def)

lemma reconcile_append: "reconcile s (L @ M) = reconcile (reconcile s L) M"
  by (simp add: reconcile_def)

lemma all_known: "log_id ` set L \<subseteq> knownAlertIds s \<Longrightarrow> admitted s L = [] \<and> reconcile s L = s"
  by (induction L) (auto simp: reconcile_def admit_def)

lemma keep_max_take: "\<exists>k. keep_max ns = take k ns"
proof (induction ns rule: keep_max.induct)
  case (1 ns)
  show ?case
  proof (cases "51 < children_length ns")
    case True
    with 1 obtain k where "keep_max (butlast ns) = take k (butlast ns)" by blast
    then have "keep_max ns = take (min k (length ns - 1)) ns"
      using True by (subst keep_max.simps) (simp add: butlast_conv_take min.commute)
    then show ?thesis by blast
  next
    case False
    then have "keep_max ns = take (length ns) ns" by (subst keep_max.simps) simp
    then show ?thesis by blast
  qed
qed

lemma keep_max_bound: "children_length (keep_max ns) \<le> 51"
  by (induction ns rule: keep_max.induct) (subst keep_max.simps, simp)

lemma alert_rows_append: "alert_rows (xs @ ys) = alert_rows xs @ alert_rows ys"
  by (induction xs rule: alert_rows.induct) auto

lemma alert_rows_take: "\<exists>j. alert_rows (take k ns) = take j (alert_rows ns)"
proof (induction ns arbitrary: k)
  case Nil
  show ?case by simp
next
  case (Cons n ns)
  show ?case
  proof (cases k)
    case 0
    have "alert_rows (take 0 (n # ns)) = take 0 (alert_rows (n # ns))" by simp
    with 0 show ?thesis by blast
  next
    case (Suc k')
    from Cons obtain j where j: "alert_rows (take k' ns) = take j (alert_rows ns)" by blast
    have "alert_rows (take k (n # ns)) =
          take (case n of AlertItem _ \<Rightarrow> Suc j | _ \<Rightarrow> j) (alert_rows (n # ns))"
      using Suc j by (cases n) simp_all
    then show ?thesis by blast
  qed
qed

lemma rows_keep_max: "\<exists>j. alert_rows (keep_max ns) = take j (alert_rows ns)"
  using keep_max_take [of ns] alert_rows_take by metis

lemma feed_ok_admit: "feed_ok s \<Longrightarrow> feed_ok (admit s a)"
proof (cases "log_id a \<in> knownAlertIds s")
  case True
  assume "feed_ok s" with True show ?thesis by (simp add: admit_def)
next
  case False
  assume ok: "feed_ok s"
  obtain j where j: "alert_rows (keep_max (AlertItem a # alertsList s)) = take j (a # alert_rows (alertsList s))"
    using rows_keep_max [of "AlertItem a # alertsList s"] by auto
  from ok False have d: "distinct (map log_id (a # alert_rows (alertsList s)))"
    by (auto simp: feed_ok_def list_all_iff)
  have "distinct (map log_id (take j (a # alert_rows (alertsList s))))"
    using d by (metis distinct_take take_map)
  moreover have "list_all (\<lambda>r. log_id r \<in> insert (log_id a) (knownAlertIds s)) (take j (a # alert_rows (alertsList s)))"
    using ok by (auto simp: feed_ok_def list_all_iff dest!: in_set_takeD)
  ultimately show ?thesis using False j by (simp add: admit_def feed_ok_def)
qed

lemma feed_ok_reconcile: "feed_ok s \<Longrightarrow> feed_ok (reconcile s L)"
  unfolding reconcile_def by (induction L arbitrary: s) (auto simp: feed_ok_admit)

lemma distinct_at_most_one:
  "distinct (map f xs) \<Longrightarrow> length (filter (\<lambda>r. f r = i) xs) \<le> 1"
  by (induction xs) (auto simp: filter_empty_conv image_iff)

lemma sample_id_eq: "log_id (sample_alert m) = log_id (sample_alert n) \<longleftrightarrow> m = n"
  by (auto simp: sample_alert_def dest: arg_cong [where f = length])

lemma children_length_simps:
  "children_length [] = 0"
  "children_length (AlertItem a # ns) = Suc (children_length ns)"
  "children_length (NoAlertsItem # ns) = Suc (children_length ns)"
  "children_length (TextNode # ns) = children_length ns"
  "children_length (xs @ ys) = children_length xs + children_length ys"
  "children_length (map AlertItem as) = length as"
  by (simp_all add: children_length_def filter_map comp_def)

lemma alert_rows_map: "alert_rows (map AlertItem as) = as"
  by (induction as) simp_all

lemma reconcile_single: "reconcile s [a] = admit s a"
  by (simp add: reconcile_def)

lemma keep_max_small: "children_length ns \<le> 51 \<Longrightarrow> keep_max ns = ns"
  by (subst keep_max.simps) simp

lemma keep_max_big: "51 < children_length ns \<Longrightarrow> keep_max ns = keep_max (butlast ns)"
  by (subst keep_max.simps) simp

lemma admit_fresh:
  "log_id a \<notin> knownAlertIds s \<Longrightarrow>
   admit s a = \<lparr>knownAlertIds = insert (log_id a) (knownAlertIds s),
                alertsList = keep_max (AlertItem a # alertsList s)\<rparr>"
  by (simp add: admit_def)

lemma reconcile_no_eviction:
  "distinct (map log_id L) \<Longrightarrow> log_id ` set L \<inter> knownAlertIds s = {} \<Longrightarrow>
   children_length (alertsList s) + length L \<le> 51 \<Longrightarrow>
   reconcile s L = \<lparr>knownAlertIds = knownAlertIds s \<union> log_id ` set L,
                     alertsList = map AlertItem (rev L) @ alertsList s\<rparr>"
proof (induction L arbitrary: s)
  case Nil
  then show ?case by (simp add: reconcile_def)
next
  case (Cons a L)
  let ?s = "admit s a"
  from Cons.prems have fresh: "log_id a \<notin> knownAlertIds s" by auto
  from Cons.prems have small: "children_length (AlertItem a # alertsList s) \<le> 51"
    by (simp add: children_length_simps)
  have s': "?s = \<lparr>knownAlertIds = insert (log_id a) (knownAlertIds s),
                  alertsList = AlertItem a # alertsList s\<rparr>"
    using fresh small by (simp add: admit_fresh keep_max_small)
  have "reconcile ?s L = \<lparr>knownAlertIds = knownAlertIds ?s \<union> log_id ` set L,
                     alertsList = map AlertItem (rev L) @ alertsList ?s\<rparr>"
  proof (rule Cons.IH)
    show "distinct (map log_id L)" using Cons.prems by simp
    show "log_id ` set L \<inter> knownAlertIds ?s = {}" using Cons.prems by (auto simp: s')
    show "children_length (alertsList ?s) + length L \<le> 51"
      using Cons.prems by (simp add: s' children_length_simps)
  qed
  then show ?case by (simp add: reconcile_Cons s')
qed

lemma sample_distinct: "distinct (map (log_id \<circ> sample_alert) [0..<n])"
  by (simp add: distinct_map inj_on_def sample_id_eq)

lemma first_50:
  "reconcile cleared (map sample_alert [0..<50]) =
     \<lparr>knownAlertIds = log_id ` sample_alert ` {0..<50},
      alertsList = map AlertItem (rev (map sample_alert [0..<50])) @ [TextNode, NoAlertsItem]\<rparr>"
proof -
  have "reconcile cleared (map sample_alert [0..<50]) =
        \<lparr>knownAlertIds = knownAlertIds cleared \<union> log_id ` set (map sample_alert [0..<50]),
         alertsList = map AlertItem (rev (map sample_alert [0..<50])) @ alertsList cleared\<rparr>"
    by (rule reconcile_no_eviction)
       (simp_all add: sample_distinct cleared_def children_length_simps)
  then show ?thesis by (simp add: cleared_def)
qed

lemma first_51:
  "reconcile cleared (map sample_alert [0..<51]) =
     \<lparr>knownAlertIds = log_id ` sample_alert ` {0..<51},
      alertsList = map AlertItem (rev (map sample_alert [0..<51])) @ [TextNode]\<rparr>"
proof -
  have upt51: "[0..<51] = [0..<50] @ [50]"
    using upt_Suc_append [of 0 50] by simp
  have fresh: "log_id (sample_alert 50) \<notin> log_id ` sample_alert ` {0..<50}"
    by (auto simp: sample_id_eq)
  have k: "keep_max (AlertItem (sample_alert 50) #
             map AlertItem (rev (map sample_alert [0..<50])) @ [TextNode, NoAlertsItem]) =
           AlertItem (sample_alert 50) #
             map AlertItem (rev (map sample_alert [0..<50])) @ [TextNode]"
    (is "keep_max (?a # ?m @ _) = _")
  proof -
    have "keep_max (?a # ?m @ [TextNode, NoAlertsItem]) =
          keep_max (butlast ((?a # ?m @ [TextNode]) @ [NoAlertsItem]))"
      by (subst keep_max_big) (simp_all add: children_length_simps)
    also have "\<dots> = keep_max (?a # ?m @ [TextNode])"
      by (simp only: butlast_snoc)
    also have "\<dots> = ?a # ?m @ [TextNode]"
      by (rule keep_max_small) (simp add: children_length_simps)
    finally show ?thesis .
  qed
  have ids: "{0..<51} = insert (50::nat) {0..<50}" by auto
  have "reconcile cleared (map sample_alert [0..<51]) =
        admit (reconcile cleared (map sample_alert [0..<50])) (sample_alert 50)"
    by (simp only: upt51 map_append reconcile_append list.map reconcile_single)
  also have "\<dots> = \<lparr>knownAlertIds = insert (log_id (sample_alert 50)) (log_id ` sample_alert ` {0..<50}),
      alertsList = AlertItem (sample_alert 50) #
             map AlertItem (rev (map sample_alert [0..<50])) @ [TextNode]\<rparr>"
    using fresh by (simp add: first_50 admit_fresh k del: upt_Suc upt_rec_numeral)
  also have "\<dots> = \<lparr>knownAlertIds = log_id ` sample_alert ` {0..<51},
      alertsList = map AlertItem (rev (map sample_alert [0..<51])) @ [TextNode]\<rparr>"
    by (simp add: ids upt51 del: upt_Suc)
  finally show ?thesis .
qed

text \<open>
  C4 (the feed holds at most 50 entries). The source's comment reads "Keep max 50 items
  in DOM", yet the loop runs only while there are more than 51 element children. After a
  clear, a poll that brings 51 alerts with different \<open>log_id\<close> leaves 51 rows in the
  feed: the 51st admission makes 52 element children, and the one node the loop removes
  is the placeholder item, which is the last child.
\<close>

theorem feed_holds_51_after_clear:
  "length (alert_rows (alertsList (reconcile cleared (map sample_alert [0..<51])))) = 51"
  by (simp add: first_51 alert_rows_append alert_rows_map del: upt_Suc)

lemma feed_ok_cleared: "feed_ok cleared"
  by (simp add: feed_ok_def cleared_def)

lemma feed_ok_no_rows: "alert_rows ns = [] \<Longrightarrow> feed_ok \<lparr>knownAlertIds = K, alertsList = ns\<rparr>"
  by (simp add: feed_ok_def)

lemma admitted_fresh: "a \<in> set (admitted s L) \<Longrightarrow> log_id a \<notin> knownAlertIds s"
proof (induction L arbitrary: s)
  case Nil
  then show ?case by simp
next
  case (Cons b L)
  show ?case
  proof (cases "log_id b \<in> knownAlertIds s")
    case True
    with Cons show ?thesis by simp
  next
    case False
    with Cons.prems have "a = b \<or> a \<in> set (admitted (admit s b) L)" by simp
    then show ?thesis
    proof
      assume "a = b" with False show ?thesis by simp
    next
      assume "a \<in> set (admitted (admit s b) L)"
      then have "log_id a \<notin> knownAlertIds (admit s b)" by (rule Cons.IH)
      then show ?thesis by (simp add: known_admit)
    qed
  qed
qed

lemma no_row_admit:
  assumes "i \<in> knownAlertIds s" and "i \<notin> log_id ` set (alert_rows (alertsList s))"
  shows "i \<notin> log_id ` set (alert_rows (alertsList (admit s a)))"
proof (cases "log_id a \<in> knownAlertIds s")
  case True
  with assms show ?thesis by (simp add: admit_def)
next
  case False
  obtain j where j: "alert_rows (keep_max (AlertItem a # alertsList s)) =
                     take j (a # alert_rows (alertsList s))"
    using rows_keep_max [of "AlertItem a # alertsList s"] by auto
  from False assms have "i \<notin> log_id ` set (a # alert_rows (alertsList s))" by auto
  then have "i \<notin> log_id ` set (take j (a # alert_rows (alertsList s)))"
    using set_take_subset [of j "a # alert_rows (alertsList s)"] by blast
  then show ?thesis using False j by (simp add: admit_def)
qed

lemma no_row_reconcile:
  "i \<in> knownAlertIds s \<Longrightarrow> i \<notin> log_id ` set (alert_rows (alertsList s)) \<Longrightarrow>
   i \<notin> log_id ` set (alert_rows (alertsList (reconcile s L)))"
proof (induction L arbitrary: s)
  case Nil
  then show ?case by (simp add: reconcile_def)
next
  case (Cons a L)
  have "i \<in> knownAlertIds (admit s a)" using Cons.prems(1) by (simp add: known_admit)
  moreover have "i \<notin> log_id ` set (alert_rows (alertsList (admit s a)))"
    using Cons.prems by (rule no_row_admit)
  ultimately show ?case unfolding reconcile_Cons by (rule Cons.IH)
qed

text \<open>
  C3 (reconciliation is idempotent per alert). A second \<open>reconcile\<close> with the same
  alert list admits no alert and leaves the feed and \<open>knownAlertIds\<close> as the first call
  left them. On a feed that started in the state \<open>feed_ok\<close> (as it is after a clear, and
  whenever no row has been added yet), for every alert \<open>a\<close> the feed has at most one
  row with the \<open>log_id\<close> of \<open>a\<close>.
\<close>

theorem reconcile_twice_admits_nothing:
  "admitted (reconcile s L) L = [] \<and>
   reconcile (reconcile s L) L = reconcile s L \<and>
   (feed_ok s \<longrightarrow>
      length (filter (\<lambda>r. log_id r = log_id a)
                (alert_rows (alertsList (reconcile (reconcile s L) L)))) \<le> 1)"
proof -
  have "log_id ` set L \<subseteq> knownAlertIds (reconcile s L)"
    by (simp add: known_reconcile)
  then have again: "admitted (reconcile s L) L = [] \<and> reconcile (reconcile s L) L = reconcile s L"
    by (rule all_known)
  have "length (filter (\<lambda>r. log_id r = log_id a)
                   (alert_rows (alertsList (reconcile s L)))) \<le> 1" if "feed_ok s"
  proof -
    from that have "feed_ok (reconcile s L)" by (rule feed_ok_reconcile)
    then have "distinct (map log_id (alert_rows (alertsList (reconcile s L))))"
      by (simp add: feed_ok_def)
    then show ?thesis by (rule distinct_at_most_one)
  qed
  with again show ?thesis by simp
qed

text \<open>
  The feed after a clear, polled twice with a list that names one alert twice: the
  second poll admits nothing and the feed has one row for each of the two alerts.
\<close>

theorem reconcile_twice_admits_nothing_witness:
  "feed_ok cleared \<and>
   admitted (reconcile cleared [sample_alert 3, sample_alert 2, sample_alert 3])
     [sample_alert 3, sample_alert 2, sample_alert 3] = [] \<and>
   alert_rows (alertsList (reconcile (reconcile cleared
       [sample_alert 3, sample_alert 2, sample_alert 3])
       [sample_alert 3, sample_alert 2, sample_alert 3])) = [sample_alert 2, sample_alert 3]"
proof -
  have r: "reconcile cleared [sample_alert 3, sample_alert 2, sample_alert 3] =
        \<lparr>knownAlertIds = {log_id (sample_alert 2), log_id (sample_alert 3)},
         alertsList = [AlertItem (sample_alert 2), AlertItem (sample_alert 3), TextNode, NoAlertsItem]\<rparr>"
    by (simp add: reconcile_def admit_def cleared_def sample_id_eq keep_max_small children_length_simps)
  show ?thesis
    using reconcile_twice_admits_nothing [of cleared
        "[sample_alert 3, sample_alert 2, sample_alert 3]" "sample_alert 3"]
    by (simp add: feed_ok_cleared r)
qed

text \<open>
  C9 (eviction never changes membership of \<open>knownAlertIds\<close>). The loop \<open>keep_max\<close>
  works on the node list alone. An alert \<open>r\<close> that had a row before \<open>reconcile s L\<close>
  and has none after it (its row was removed by the loop) still has its \<open>log_id\<close> in
  \<open>knownAlertIds\<close>; whatever a later poll \<open>L2\<close> holds, \<open>r\<close> is not among the alerts
  it admits, no row with that \<open>log_id\<close> comes back, and the \<open>log_id\<close> stays known.
\<close>

theorem evicted_alert_stays_known:
  assumes "feed_ok s"
    and "r \<in> set (alert_rows (alertsList s))"
    and "log_id r \<notin> log_id ` set (alert_rows (alertsList (reconcile s L)))"
  shows "log_id r \<in> knownAlertIds (reconcile s L) \<and>
         r \<notin> set (admitted (reconcile s L) L2) \<and>
         log_id r \<notin> log_id ` set (alert_rows (alertsList (reconcile (reconcile s L) L2))) \<and>
         log_id r \<in> knownAlertIds (reconcile (reconcile s L) L2)"
proof -
  from assms(1,2) have "log_id r \<in> knownAlertIds s"
    by (auto simp: feed_ok_def list_all_iff)
  then have k: "log_id r \<in> knownAlertIds (reconcile s L)"
    by (simp add: known_reconcile)
  then have "r \<notin> set (admitted (reconcile s L) L2)"
    using admitted_fresh by blast
  moreover have "log_id r \<notin> log_id ` set (alert_rows (alertsList (reconcile (reconcile s L) L2)))"
    using k assms(3) by (rule no_row_reconcile)
  moreover have "log_id r \<in> knownAlertIds (reconcile (reconcile s L) L2)"
    using k by (simp add: known_reconcile)
  ultimately show ?thesis using k by simp
qed

text \<open>What the loop does guarantee: at most 51 rows, once the list has at most 51 elements.\<close>

lemma keep_max_bound_rows: "length (alert_rows ns) \<le> children_length ns"
  by (induction ns rule: alert_rows.induct) (simp_all add: children_length_simps)

lemma feed_at_most_51:
  "children_length (alertsList s) \<le> 51 \<Longrightarrow>
   length (alert_rows (alertsList (reconcile s L))) \<le> 51"
proof -
  assume "children_length (alertsList s) \<le> 51"
  then have "children_length (alertsList (reconcile s L)) \<le> 51"
    unfolding reconcile_def
    by (induction L arbitrary: s) (simp_all add: admit_def keep_max_bound)
  then show ?thesis using keep_max_bound_rows [of "alertsList (reconcile s L)"] by simp
qed

lemma evict_oldest:
  "admit \<lparr>knownAlertIds = log_id ` sample_alert ` {0..<51},
      alertsList = map AlertItem (rev (map sample_alert [0..<51])) @ [TextNode]\<rparr> (sample_alert 51) =
     \<lparr>knownAlertIds = log_id ` sample_alert ` {0..<52},
      alertsList = map AlertItem (sample_alert 51 # rev (map sample_alert [1..<51]))\<rparr>"
proof -
  have fresh: "log_id (sample_alert 51) \<notin> log_id ` sample_alert ` {0..<51}"
    by (auto simp: sample_id_eq)
  have ids: "{0..<52} = insert (51::nat) {0..<51}" by auto
  have old: "rev (map sample_alert [0..<51]) = rev (map sample_alert [1..<51]) @ [sample_alert 0]"
    using upt_conv_Cons [of 0 51] by simp
  let ?m = "map AlertItem (rev (map sample_alert [1..<51]))"
  let ?a = "AlertItem (sample_alert 51)"
  have "keep_max (?a # map AlertItem (rev (map sample_alert [0..<51])) @ [TextNode]) =
        keep_max (butlast ((?a # ?m @ [AlertItem (sample_alert 0)]) @ [TextNode]))"
    by (subst keep_max_big) (simp_all add: children_length_simps old)
  also have "\<dots> = keep_max (butlast ((?a # ?m) @ [AlertItem (sample_alert 0)]))"
    by (subst butlast_snoc, subst keep_max_big) (simp_all add: children_length_simps)
  also have "\<dots> = ?a # ?m"
    by (subst butlast_snoc, rule keep_max_small) (simp add: children_length_simps)
  finally show ?thesis using fresh by (simp add: admit_fresh ids)
qed

text \<open>
  After a clear and a poll of 51 alerts, the next new alert pushes the oldest row out;
  the oldest alert stays known and a later poll that lists it again does not admit it.
\<close>

theorem evicted_alert_stays_known_witness:
  "feed_ok (reconcile cleared (map sample_alert [0..<51])) \<and>
   sample_alert 0 \<in> set (alert_rows (alertsList (reconcile cleared (map sample_alert [0..<51])))) \<and>
   log_id (sample_alert 0) \<notin> log_id ` set (alert_rows (alertsList
      (reconcile (reconcile cleared (map sample_alert [0..<51])) [sample_alert 51]))) \<and>
   log_id (sample_alert 0) \<in> knownAlertIds
      (reconcile (reconcile cleared (map sample_alert [0..<51])) [sample_alert 51]) \<and>
   sample_alert 0 \<notin> set (admitted
      (reconcile (reconcile cleared (map sample_alert [0..<51])) [sample_alert 51])
      [sample_alert 0, sample_alert 52])"
proof -
  let ?s = "reconcile cleared (map sample_alert [0..<51])"
  have h1: "feed_ok ?s"
    using feed_ok_cleared by (rule feed_ok_reconcile)
  have h2: "sample_alert 0 \<in> set (alert_rows (alertsList ?s))"
    by (simp add: first_51 alert_rows_append alert_rows_map del: upt_Suc upt_rec_numeral)
  have "alert_rows (alertsList (reconcile ?s [sample_alert 51])) =
        sample_alert 51 # rev (map sample_alert [1..<51])"
    by (simp only: reconcile_single first_51 evict_oldest feed.simps alert_rows_map)
  then have h3: "log_id (sample_alert 0) \<notin>
      log_id ` set (alert_rows (alertsList (reconcile ?s [sample_alert 51])))"
    by (auto simp: sample_id_eq simp del: upt_Suc upt_rec_numeral)
  from evicted_alert_stays_known [OF h1 h2 h3, of "[sample_alert 0, sample_alert 52]"] h1 h2 h3
  show ?thesis by blast
qed

section \<open>Properties of the result filter\<close>

text \<open>\<open>str_includes\<close> is the substring relation.\<close>

lemma str_includes_iff: "str_includes s t \<longleftrightarrow> (\<exists>u v. s = u @ t @ v)"
proof (induction s)
  case Nil
  then show ?case by auto
next
  case (Cons c s)
  show ?case
  proof
    assume "str_includes (c # s) t"
    then consider "take (length t) (c # s) = t" | "str_includes s t" by auto
    then show "\<exists>u v. c # s = u @ t @ v"
    proof cases
      case 1
      then have "c # s = [] @ t @ drop (length t) (c # s)"
        by (metis append_Nil append_take_drop_id)
      then show ?thesis by blast
    next
      case 2
      with Cons obtain u v where "s = u @ t @ v" by blast
      then have "c # s = (c # u) @ t @ v" by simp
      then show ?thesis by blast
    qed
  next
    assume "\<exists>u v. c # s = u @ t @ v"
    then obtain u v where uv: "c # s = u @ t @ v" by blast
    show "str_includes (c # s) t"
    proof (cases u)
      case Nil
      with uv have "take (length t) (c # s) = t" by simp
      then show ?thesis by simp
    next
      case (Cons d u')
      with uv have "s = u' @ t @ v" by simp
      with Cons.IH have "str_includes s t" by blast
      then show ?thesis by simp
    qed
  qed
qed

lemma str_includes_empty [simp]: "str_includes s []"
  by (cases s) simp_all

lemma toLowerCase_Nil_iff [simp]: "toLowerCase s = [] \<longleftrightarrow> s = []"
  by (simp add: toLowerCase_def)

lemma filtered_results_eq:
  "filtered_results p =
     filter (\<lambda>r. spec_label_matches (filterThreat p) r \<and> spec_ip_matches (trim (filterIP p)) r)
       (allDetectionResults p)"
  by (auto simp: filtered_results_def spec_label_matches_def spec_ip_matches_def Let_def
           intro: filter_cong)

lemma view_rows_applyFilters: "view_rows (applyFilters p) = filtered_results p"
  by (simp add: applyFilters_def view_rows_def Let_def)

lemma count_applyFilters: "resultsCount (applyFilters p) = length (filtered_results p)"
  by (simp add: applyFilters_def Let_def)

text \<open>
  C5, as amended (the filter view). The table shows the results that satisfy both
  predicates, in the order of \<open>allDetectionResults\<close>, and \<open>$resultsCount\<close> shows how
  many they are; the label \<open>all\<close> matches every result, any other label matches the
  results that carry it. The address predicate is taken on the filter text with the
  white space of its two ends removed: the trimmed text matches when it is empty or
  occurs, letter case aside, in the source address (read as empty when missing).
\<close>

theorem applyFilters_view:
  "view_rows (applyFilters p) =
     spec_view (filterThreat p) (trim (filterIP p)) (allDetectionResults p) \<and>
   resultsCount (applyFilters p) =
     length (spec_view (filterThreat p) (trim (filterIP p)) (allDetectionResults p))"
  by (simp add: view_rows_applyFilters count_applyFilters filtered_results_eq spec_view_def)

text \<open>
  C5 as stated fails on a filter text with white space at an end. The filter \<open>" 10"\<close>
  does not occur in \<open>"10.0.0.1"\<close>, so the stated predicate excludes the result; the code
  trims the text to \<open>"10"\<close> and shows the result.
\<close>

theorem untrimmed_filter_counterexample:
  "view_rows (applyFilters (panel_of [ip_alert (Some ''10.0.0.1'') ''Attack''] ''all'' '' 10'')) =
     [ip_alert (Some ''10.0.0.1'') ''Attack''] \<and>
   spec_view ''all'' '' 10'' [ip_alert (Some ''10.0.0.1'') ''Attack''] = []"
  by (simp add: view_rows_def applyFilters_def filtered_results_def panel_of_def ip_alert_def
        spec_view_def spec_label_matches_def spec_ip_matches_def toLowerCase_def lower_char_def
        trim_def is_white_space_def or_empty_def Let_def)

text \<open>
  C8 (the reason shown for an empty view). When no result passes the filters, the table
  body is a message, and the message tells the two cases apart: \<open>No logs to analyze\<close>
  when \<open>allDetectionResults\<close> is itself empty, \<open>No results match your filters\<close> when it
  is not.
\<close>

theorem empty_view_reason:
  assumes "filtered_results p = []"
  shows "detectBody (applyFilters p) =
           (if allDetectionResults p = [] then Message ''No logs to analyze''
            else Message ''No results match your filters'') \<and>
         Message ''No logs to analyze'' \<noteq> Message ''No results match your filters''"
  using assms by (simp add: applyFilters_def Let_def)

lemma nonempty_view_rows:
  "filtered_results p \<noteq> [] \<Longrightarrow> detectBody (applyFilters p) = Rows (filtered_results p)"
  by (simp add: applyFilters_def Let_def)

text \<open>Both cases: no results at all, and one \<open>Attack\<close> result under the filter \<open>Normal\<close>.\<close>

theorem empty_view_reason_witness:
  "filtered_results (panel_of [] ''all'' '''') = [] \<and>
   detectBody (applyFilters (panel_of [] ''all'' '''')) = Message ''No logs to analyze'' \<and>
   filtered_results (panel_of [ip_alert (Some ''10.0.0.1'') ''Attack''] ''Normal'' '''') = [] \<and>
   detectBody (applyFilters (panel_of [ip_alert (Some ''10.0.0.1'') ''Attack''] ''Normal'' '''')) =
     Message ''No results match your filters''"
proof -
  have e1: "filtered_results (panel_of [] ''all'' '''') = []"
    by (simp add: filtered_results_def panel_of_def Let_def)
  have e2: "filtered_results (panel_of [ip_alert (Some ''10.0.0.1'') ''Attack''] ''Normal'' '''') = []"
    by (simp add: filtered_results_def panel_of_def ip_alert_def Let_def)
  from empty_view_reason [OF e1] empty_view_reason [OF e2] e1 e2
  show ?thesis by (simp add: panel_of_def)
qed

text \<open>
  C10 (results without a source address). A result whose \<open>source_ip\<close> is missing or
  empty passes the filters exactly when it is among the results, passes the label
  filter, and the trimmed address filter is empty.
\<close>

theorem missing_ip_matches_iff_no_ip_filter:
  assumes "source_ip r = None \<or> source_ip r = Some ''''"
  shows "r \<in> set (filtered_results p) \<longleftrightarrow>
           r \<in> set (allDetectionResults p) \<and>
           (filterThreat p = ''all'' \<or> threat_label r = filterThreat p) \<and>
           trim (filterIP p) = ''''"
proof -
  from assms have ip: "toLowerCase (or_empty (source_ip r)) = []"
    by (auto simp: or_empty_def)
  have "spec_ip_matches (trim (filterIP p)) r \<longleftrightarrow> trim (filterIP p) = []"
    by (auto simp: spec_ip_matches_def ip)
  then show ?thesis
    by (auto simp: filtered_results_eq spec_label_matches_def)
qed

text \<open>
  A result without address is kept under the label filter \<open>Attack\<close> and an address
  filter of two spaces, and dropped under the address filter \<open>1\<close>.
\<close>

theorem missing_ip_matches_iff_no_ip_filter_witness:
  "(source_ip (ip_alert None ''Attack'') = None \<or> source_ip (ip_alert None ''Attack'') = Some '''') \<and>
   ip_alert None ''Attack'' \<in> set (filtered_results
      (panel_of [ip_alert None ''Attack'', ip_alert (Some ''10.0.0.1'') ''Attack''] ''Attack'' ''  '')) \<and>
   ip_alert None ''Attack'' \<notin> set (filtered_results
      (panel_of [ip_alert None ''Attack'', ip_alert (Some ''10.0.0.1'') ''Attack''] ''all'' ''1''))"
proof -
  have h: "source_ip (ip_alert None ''Attack'') = None \<or> source_ip (ip_alert None ''Attack'') = Some ''''"
    by (simp add: ip_alert_def)
  have t1: "trim ''  '' = ''''" and t2: "trim ''1'' = ''1''"
    by (simp_all add: trim_def is_white_space_def)
  from missing_ip_matches_iff_no_ip_filter [OF h,
         of "panel_of [ip_alert None ''Attack'', ip_alert (Some ''10.0.0.1'') ''Attack''] ''Attack'' ''  ''"]
       missing_ip_matches_iff_no_ip_filter [OF h,
         of "panel_of [ip_alert None ''Attack'', ip_alert (Some ''10.0.0.1'') ''Attack''] ''all'' ''1''"]
  show ?thesis using h by (simp add: panel_of_def t1 t2 ip_alert_def)
qed

section \<open>Properties of the series aggregator\<close>

lemma chunks_Nil [simp]: "chunks bs [] = []"
  by (subst chunks.simps) simp

lemma chunks_Cons: "0 < bs \<Longrightarrow> xs \<noteq> [] \<Longrightarrow>
    chunks bs xs = take bs xs # chunks bs (drop bs xs)"
  by (subst chunks.simps) simp

lemma concat_chunks: "0 < bs \<Longrightarrow> concat (chunks bs xs) = xs"
proof (induction bs xs rule: chunks.induct)
  case (1 bs xs)
  show ?case
  proof (cases "xs = []")
    case True
    then show ?thesis by simp
  next
    case False
    with 1 show ?thesis by (simp add: chunks_Cons)
  qed
qed

lemma chunks_shape: "0 < bs \<Longrightarrow> b \<in> set (chunks bs xs) \<Longrightarrow> b \<noteq> [] \<and> length b \<le> bs"
proof (induction bs xs rule: chunks.induct)
  case (1 bs xs)
  show ?case
  proof (cases "xs = []")
    case True
    with 1 show ?thesis by simp
  next
    case False
    with 1 show ?thesis by (auto simp: chunks_Cons)
  qed
qed

lemma bucket_step_take:
  "bucket_step fmt xs bs acc i =
     (case take bs (drop (i * bs) xs) of
        [] \<Rightarrow> acc
      | first # _ \<Rightarrow>
          \<lparr>labels = labels acc @ [fmt (timestamp first)],
           attackData = attackData acc @ [count_label ''Attack'' (take bs (drop (i * bs) xs))],
           suspData = suspData acc @ [count_label ''Suspicious'' (take bs (drop (i * bs) xs))]\<rparr>)"
  by (simp add: bucket_step_def slice_def Let_def)

lemma loop_is_map:
  "foldl (bucket_step fmt xs bs) acc is =
     (let buckets = filter (\<lambda>b. b \<noteq> []) (map (\<lambda>i. take bs (drop (i * bs) xs)) is)
      in \<lparr>labels = labels acc @ map (\<lambda>b. fmt (timestamp (hd b))) buckets,
          attackData = attackData acc @ map (count_label ''Attack'') buckets,
          suspData = suspData acc @ map (count_label ''Suspicious'') buckets\<rparr>)"
proof (induction "is" arbitrary: acc)
  case Nil
  show ?case by simp
next
  case (Cons i "is")
  let ?f = "bucket_step fmt xs bs"
  have "foldl ?f acc (i # is) = foldl ?f (?f acc i) is" by simp
  also have "\<dots> =
     (let buckets = filter (\<lambda>b. b \<noteq> []) (map (\<lambda>i. take bs (drop (i * bs) xs)) is)
      in \<lparr>labels = labels (?f acc i) @ map (\<lambda>b. fmt (timestamp (hd b))) buckets,
          attackData = attackData (?f acc i) @ map (count_label ''Attack'') buckets,
          suspData = suspData (?f acc i) @ map (count_label ''Suspicious'') buckets\<rparr>)"
    by (rule Cons)
  also have "\<dots> =
     (let buckets = filter (\<lambda>b. b \<noteq> []) (map (\<lambda>i. take bs (drop (i * bs) xs)) (i # is))
      in \<lparr>labels = labels acc @ map (\<lambda>b. fmt (timestamp (hd b))) buckets,
          attackData = attackData acc @ map (count_label ''Attack'') buckets,
          suspData = suspData acc @ map (count_label ''Suspicious'') buckets\<rparr>)"
  proof -
    define b where "b = take bs (drop (i * bs) xs)"
    have step: "?f acc i =
        (case b of [] \<Rightarrow> acc
         | first # _ \<Rightarrow>
            \<lparr>labels = labels acc @ [fmt (timestamp first)],
             attackData = attackData acc @ [count_label ''Attack'' b],
             suspData = suspData acc @ [count_label ''Suspicious'' b]\<rparr>)"
      by (simp only: bucket_step_take b_def)
    have m: "map (\<lambda>i. take bs (drop (i * bs) xs)) (i # is) =
             b # map (\<lambda>i. take bs (drop (i * bs) xs)) is"
      by (simp add: b_def)
    show ?thesis unfolding m step by (cases b) (simp_all add: Let_def)
  qed
  finally show ?case .
qed

lemma slices_are_chunks:
  "0 < bs \<Longrightarrow> length xs \<le> bc * bs \<Longrightarrow>
   filter (\<lambda>b. b \<noteq> []) (map (\<lambda>i. take bs (drop (i * bs) xs)) [0..<bc]) = chunks bs xs"
proof (induction bc arbitrary: xs)
  case 0
  then show ?case by simp
next
  case (Suc bc)
  have idx: "[0..<Suc bc] = 0 # map Suc [0..<bc]"
    by (simp add: upt_conv_Cons map_Suc_upt del: upt_Suc)
  have shift: "map ((\<lambda>i. take bs (drop (i * bs) xs)) \<circ> Suc) [0..<bc] =
               map (\<lambda>i. take bs (drop (i * bs) (drop bs xs))) [0..<bc]"
    by (simp add: add.commute)
  show ?case
  proof (cases "xs = []")
    case True
    then show ?thesis by (simp del: upt_Suc)
  next
    case False
    from Suc.prems have "length (drop bs xs) \<le> bc * bs" by simp
    with Suc.prems(1) have "filter (\<lambda>b. b \<noteq> []) (map (\<lambda>i. take bs (drop (i * bs) (drop bs xs))) [0..<bc]) =
        chunks bs (drop bs xs)" by (rule Suc.IH)
    then show ?thesis
      using False Suc.prems(1) by (simp add: idx shift chunks_Cons del: upt_Suc)
  qed
qed

lemma ceil_div_covers: "0 < b \<Longrightarrow> a \<le> b * ceil_div a b"
proof -
  assume b: "0 < b"
  have "a + b - 1 = b * ((a + b - 1) div b) + (a + b - 1) mod b" by simp
  moreover have "(a + b - 1) mod b < b" using b by simp
  ultimately show ?thesis unfolding ceil_div_def by linarith
qed

lemma ceil_div_pos: "0 < a \<Longrightarrow> 0 < b \<Longrightarrow> 0 < ceil_div a b"
  unfolding ceil_div_def by (simp add: div_greater_zero_iff)

lemma bucket_sizes:
  assumes "alerts \<noteq> []"
  shows "0 < spec_bucketCount (length alerts)"
    and "0 < ceil_div (length alerts) (spec_bucketCount (length alerts))"
    and "length alerts \<le> spec_bucketCount (length alerts) *
           ceil_div (length alerts) (spec_bucketCount (length alerts))"
proof -
  from assms have n: "0 < length alerts" by simp
  then have "0 < ceil_div (length alerts) 5" by (simp add: ceil_div_pos)
  then show c: "0 < spec_bucketCount (length alerts)" by (simp add: spec_bucketCount_def)
  from n c show "0 < ceil_div (length alerts) (spec_bucketCount (length alerts))"
    by (rule ceil_div_pos)
  from c show "length alerts \<le> spec_bucketCount (length alerts) *
           ceil_div (length alerts) (spec_bucketCount (length alerts))"
    by (rule ceil_div_covers)
qed

lemma loop_buckets:
  assumes "alerts \<noteq> []"
  shows "filter (\<lambda>b. b \<noteq> [])
           (map (\<lambda>i. take (ceil_div (length alerts) (spec_bucketCount (length alerts)))
                        (drop (i * ceil_div (length alerts) (spec_bucketCount (length alerts)))
                           (sort_key timestamp alerts)))
              [0..<spec_bucketCount (length alerts)]) = spec_buckets alerts"
proof -
  have "length (sort_key timestamp alerts) \<le> spec_bucketCount (length alerts) *
           ceil_div (length alerts) (spec_bucketCount (length alerts))"
    using bucket_sizes(3) [OF assms] by simp
  with bucket_sizes(2) [OF assms] show ?thesis
    unfolding spec_buckets_def Let_def by (rule slices_are_chunks)
qed

lemma timeline_nonempty:
  assumes "timelineChart c = Some t" and "alerts \<noteq> []"
  shows "timelineChart (updateCharts fmt alerts c) = Some (spec_timeline fmt alerts)"
proof -
  have "foldl (bucket_step fmt (sort_key timestamp alerts)
                 (ceil_div (length alerts) (spec_bucketCount (length alerts))))
          \<lparr>labels = [], attackData = [], suspData = []\<rparr>
          [0..<spec_bucketCount (length alerts)] = spec_timeline fmt alerts"
    by (simp add: loop_is_map loop_buckets [OF assms(2)] spec_timeline_def Let_def del: upt_Suc)
  then show ?thesis
    using assms by (simp add: updateCharts_def Let_def spec_bucketCount_def split: option.splits)
qed

lemma timeline_empty: "timelineChart (updateCharts fmt [] c) = timelineChart c"
  by (simp add: updateCharts_def Let_def split: option.splits)

text \<open>
  C6, as amended (the timeline). With a timeline chart present and at least one alert,
  \<open>updateCharts\<close> sets the timeline that the specification describes: the alerts are
  sorted by ascending timestamp, \<open>bucketCount = min 10 (ceil (n / 5))\<close>,
  \<open>bucketSize = ceil (n / bucketCount)\<close>, the sorted alerts are cut into consecutive
  chunks of \<open>bucketSize\<close> that together are the whole sorted list, at most \<open>bucketCount\<close>
  of them and none empty, and each chunk gives the formatted time of its first alert
  and its \<open>Attack\<close> and \<open>Suspicious\<close> tallies; seven alerts give \<open>bucketCount = 2\<close>.
  With no alert, \<open>updateCharts\<close> leaves the timeline as it was.
\<close>

theorem updateCharts_timeline:
  assumes "timelineChart c = Some t"
  shows "timelineChart (updateCharts fmt alerts c) =
           (if alerts = [] then Some t else Some (spec_timeline fmt alerts)) \<and>
         concat (spec_buckets alerts) = sort_key timestamp alerts \<and>
         length (spec_buckets alerts) \<le> spec_bucketCount (length alerts) \<and>
         list_all (\<lambda>b. b \<noteq> [] \<and>
             length b \<le> ceil_div (length alerts) (spec_bucketCount (length alerts)))
           (spec_buckets alerts) \<and>
         spec_bucketCount 7 = 2"
proof (cases "alerts = []")
  case True
  then show ?thesis
    using assms by (simp add: timeline_empty spec_buckets_def spec_bucketCount_def ceil_div_def)
next
  case False
  have bs: "0 < ceil_div (length alerts) (spec_bucketCount (length alerts))"
    using False by (rule bucket_sizes(2))
  have 1: "timelineChart (updateCharts fmt alerts c) = Some (spec_timeline fmt alerts)"
    using assms False by (rule timeline_nonempty)
  have 2: "concat (spec_buckets alerts) = sort_key timestamp alerts"
    using bs by (simp add: spec_buckets_def Let_def concat_chunks)
  have "length (spec_buckets alerts) \<le> length [0..<spec_bucketCount (length alerts)]"
    unfolding loop_buckets [OF False, symmetric]
    by (rule order_trans [OF length_filter_le]) simp
  then have 3: "length (spec_buckets alerts) \<le> spec_bucketCount (length alerts)" by simp
  have 4: "list_all (\<lambda>b. b \<noteq> [] \<and>
             length b \<le> ceil_div (length alerts) (spec_bucketCount (length alerts)))
           (spec_buckets alerts)"
    using chunks_shape [OF bs] by (auto simp: list_all_iff spec_buckets_def Let_def)
  have 5: "spec_bucketCount 7 = 2" by (simp add: spec_bucketCount_def ceil_div_def)
  from False 1 2 3 4 5 show ?thesis by simp
qed

lemma seven_eval:
  "spec_timeline clock_utc seven_alerts =
     \<lparr>labels = [''12:00 AM'', ''01:00 AM''], attackData = [2, 2], suspData = [1, 1]\<rparr>"
  by code_simp

text \<open>
  Seven alerts on the fresh charts: two buckets, of four and of three alerts. No alert
  on the fresh charts: the timeline stays empty.
\<close>

theorem updateCharts_timeline_witness:
  "timelineChart initCharts = Some \<lparr>labels = [], attackData = [], suspData = []\<rparr> \<and>
   timelineChart (updateCharts clock_utc seven_alerts initCharts) =
     Some \<lparr>labels = [''12:00 AM'', ''01:00 AM''], attackData = [2, 2], suspData = [1, 1]\<rparr> \<and>
   timelineChart (updateCharts clock_utc [] initCharts) =
     Some \<lparr>labels = [], attackData = [], suspData = []\<rparr>"
proof -
  have h: "timelineChart initCharts = Some \<lparr>labels = [], attackData = [], suspData = []\<rparr>"
    by (simp add: initCharts_def)
  have ne: "seven_alerts \<noteq> []" by (simp add: seven_alerts_def)
  from updateCharts_timeline [OF h, of clock_utc seven_alerts]
       updateCharts_timeline [OF h, of clock_utc "[]"] h ne
  show ?thesis by (simp add: seven_eval)
qed

text \<open>
  C6 as stated fails for \<open>n = 0\<close>: the branch that computes the timeline is guarded by
  \<open>alerts.length > 0\<close>, so a poll without alerts after a poll with one alert leaves the
  bucket of the earlier poll on the chart.
\<close>

theorem stale_timeline_counterexample:
  "timelineChart (updateCharts clock_utc [] (updateCharts clock_utc [timed_alert 0 ''Attack''] initCharts)) =
     Some \<lparr>labels = [''12:00 AM''], attackData = [1], suspData = [0]\<rparr>"
  by code_simp

section \<open>Properties of the job controller\<close>

lemma parse_examples:
  "parseInt ''abc'' = NaN" "parseInt ''  -42px'' = Num (- 42)" "parseInt ''0x1F'' = Num 31"
  "parseInt ''500'' = Num 500" "parseInt '''' = NaN"
  by code_simp+

lemma filter_remove_nth:
  "i < length ts \<Longrightarrow>
   length (filter P (take i ts @ drop (Suc i) ts)) + (if P (ts ! i) then 1 else 0) = length (filter P ts)"
proof -
  assume "i < length ts"
  then have "ts = take i ts @ ts ! i # drop (Suc i) ts" by (rule id_take_nth_drop)
  then have "filter P ts = filter P (take i ts) @ filter P (ts ! i # drop (Suc i) ts)"
    by (metis filter_append)
  then show ?thesis by simp
qed

lemma filter_update_nth:
  "i < length ts \<Longrightarrow>
   length (filter P (ts[i := x])) + (if P (ts ! i) then 1 else 0) =
   length (filter P ts) + (if P x then 1 else 0)"
proof -
  assume i: "i < length ts"
  then have "ts[i := x] = take i ts @ x # drop (Suc i) ts" by (rule upd_conv_take_nth_drop)
  then have "length (filter P (ts[i := x])) =
             length (filter P (take i ts @ drop (Suc i) ts)) + (if P x then 1 else 0)"
    by simp
  with filter_remove_nth [OF i, of P] show ?thesis by simp
qed

lemma runs_applyFilters [simp]: "tasks (applyFilters c) = tasks c"
  "detectionInProgress (applyFilters c) = detectionInProgress c"
  by (simp_all add: applyFilters_def Let_def)

lemma one_run_step: "one_run c \<Longrightarrow> one_run (fst (step c e))"
proof (cases e)
  case Click
  assume "one_run c"
  then show ?thesis using Click by (simp add: one_run_def runs_in_flight_def)
next
  case (FilterThreatChange v)
  assume "one_run c"
  then show ?thesis using FilterThreatChange by (simp add: one_run_def runs_in_flight_def)
next
  case (FilterIPInput v)
  assume "one_run c"
  then show ?thesis using FilterIPInput by (simp add: one_run_def runs_in_flight_def)
next
  case (CancelSettles i r)
  assume ok: "one_run c"
  show ?thesis
  proof (cases "awaiting c i CancelTask")
    case True
    then have "length (filter is_run (take i (tasks c) @ drop (Suc i) (tasks c))) =
               length (filter is_run (tasks c))"
      using filter_remove_nth [of i "tasks c" is_run] by (simp add: awaiting_def)
    then show ?thesis
      using ok True CancelSettles
      by (cases r) (simp_all add: one_run_def runs_in_flight_def drop_task_def)
  next
    case False
    then show ?thesis using ok CancelSettles by simp
  qed
next
  case (CountSettles i r answer)
  assume ok: "one_run c"
  show ?thesis
  proof (cases "awaiting c i CountTask")
    case True
    then have i: "i < length (tasks c)" and t: "tasks c ! i = CountTask"
      by (simp_all add: awaiting_def)
    have rm: "length (filter is_run (take i (tasks c) @ drop (Suc i) (tasks c))) + 1 =
               length (filter is_run (tasks c))"
      using filter_remove_nth [OF i, of is_run] t by simp
    have up: "length (filter is_run ((tasks c)[i := DetectTask])) = length (filter is_run (tasks c))"
      using filter_update_nth [OF i, of is_run DetectTask] t by simp
    from rm ok have "length (filter is_run (take i (tasks c) @ drop (Suc i) (tasks c))) = 0"
      by (simp add: one_run_def runs_in_flight_def split: if_splits)
    then show ?thesis
      using ok True CountSettles up
      by (cases r) (simp_all add: one_run_def runs_in_flight_def drop_task_def finally_block_def)
  next
    case False
    then show ?thesis using ok CountSettles by simp
  qed
next
  case (DetectSettles i r)
  assume ok: "one_run c"
  show ?thesis
  proof (cases "awaiting c i DetectTask")
    case True
    then have i: "i < length (tasks c)" and t: "tasks c ! i = DetectTask"
      by (simp_all add: awaiting_def)
    have rm: "length (filter is_run (take i (tasks c) @ drop (Suc i) (tasks c))) + 1 =
               length (filter is_run (tasks c))"
      using filter_remove_nth [OF i, of is_run] t by simp
    from rm ok have "length (filter is_run (take i (tasks c) @ drop (Suc i) (tasks c))) = 0"
      by (simp add: one_run_def runs_in_flight_def split: if_splits)
    then show ?thesis
      using ok True DetectSettles
      by (cases r) (simp_all add: one_run_def runs_in_flight_def drop_task_def finally_block_def)
  next
    case False
    then show ?thesis using ok DetectSettles by simp
  qed
qed

lemma one_run_run: "one_run c \<Longrightarrow> one_run (run c es)"
  unfolding run_def by (induction es arbitrary: c) (simp_all add: one_run_step)

lemma one_run_page_loaded: "one_run page_loaded"
  by (simp add: one_run_def runs_in_flight_def page_loaded_def)

lemma run_task_pending:
  assumes "one_run c" and "detectionInProgress c"
  shows "\<exists>i. awaiting c i CountTask \<or> awaiting c i DetectTask"
proof -
  from assms have "filter is_run (tasks c) \<noteq> []"
    by (auto simp: one_run_def runs_in_flight_def)
  then obtain t where "t \<in> set (tasks c)" and r: "is_run t"
    by (auto simp: filter_empty_conv)
  then obtain i where i: "i < length (tasks c)" "tasks c ! i = t"
    by (auto simp: in_set_conv_nth)
  from r have "t = CountTask \<or> t = DetectTask" by (cases t) simp_all
  with i show ?thesis by (auto simp: awaiting_def)
qed

lemma finally_resets [simp]: "\<not> detectionInProgress (finally_block c)"
  by (simp add: finally_block_def)

text \<open>
  C1, as amended (a click while a run is in flight). With \<open>detectionInProgress\<close> set, a
  click sends no \<open>/logs/count\<close> and no \<open>/detect\<close> request and leaves
  \<open>detectionInProgress\<close> set and the run in flight untouched; it does send one
  \<open>POST /detect/cancel\<close> and suspends at it. In every state that the loaded page can
  reach, at most one detection run is in flight.
\<close>

theorem click_while_running:
  assumes "detectionInProgress c"
  shows "step c Click = (c\<lparr>tasks := tasks c @ [CancelTask]\<rparr>, [Fetch PostDetectCancel]) \<and>
         detectionInProgress (fst (step c Click)) \<and>
         runs_in_flight (fst (step c Click)) = runs_in_flight c \<and>
         runs_in_flight (run page_loaded es) \<le> 1"
proof -
  have "one_run (run page_loaded es)"
    using one_run_page_loaded by (rule one_run_run)
  then have "runs_in_flight (run page_loaded es) \<le> 1"
    by (simp add: one_run_def split: if_splits)
  with assms show ?thesis by (simp add: runs_in_flight_def)
qed

text \<open>Two clicks in a row on the loaded page.\<close>

theorem click_while_running_witness:
  "detectionInProgress (run page_loaded [Click]) \<and>
   snd (step (run page_loaded [Click]) Click) = [Fetch PostDetectCancel] \<and>
   detectionInProgress (run page_loaded [Click, Click]) \<and>
   runs_in_flight (run page_loaded [Click, Click]) \<le> 1"
proof -
  have h: "detectionInProgress (run page_loaded [Click])"
    by (simp add: run_def page_loaded_def)
  have r: "run page_loaded [Click, Click] = fst (step (run page_loaded [Click]) Click)"
    by (simp add: run_def)
  from click_while_running [OF h, of "[Click, Click]"] h show ?thesis
    by (simp add: r)
qed

text \<open>
  C1 as stated fails: the second click is not rejected as a no-op. It sends the
  cancellation request, and once that request succeeds the button reads "Cancelling...".
\<close>

theorem click_while_running_counterexample:
  "step (run page_loaded [Click]) Click \<noteq> (run page_loaded [Click], []) \<and>
   snd (step (run page_loaded [Click]) Click) = [Fetch PostDetectCancel] \<and>
   btnLabel (run page_loaded [Click, Click, CancelSettles 1 (Resolved ())]) = Cancelling"
  by (simp add: run_def page_loaded_def awaiting_def drop_task_def)

text \<open>
  C2 (every run ends with \<open>detectionInProgress\<close> cleared). Whatever way \<open>/detect\<close>
  settles (a result, a cancelled result, a failure), the call suspended at it ends with
  \<open>detectionInProgress\<close> cleared; a call suspended at \<open>/logs/count\<close> ends so when that
  request fails, and goes on to \<open>/detect\<close> when it succeeds. In every reachable state
  with \<open>detectionInProgress\<close> set, such a call is suspended, so the flag is cleared as
  soon as the requests of the run have settled.
\<close>

theorem run_resets_detectionInProgress:
  "(awaiting c i DetectTask \<longrightarrow>
      \<not> detectionInProgress (fst (step c (DetectSettles i r)))) \<and>
   (awaiting c i CountTask \<longrightarrow>
      \<not> detectionInProgress (fst (step c (CountSettles i (Rejected err) answer))) \<and>
      awaiting (fst (step c (CountSettles i (Resolved n) answer))) i DetectTask) \<and>
   (detectionInProgress (run page_loaded es) \<longrightarrow>
      (\<exists>j. awaiting (run page_loaded es) j CountTask \<or> awaiting (run page_loaded es) j DetectTask))"
proof (intro conjI impI)
  assume "awaiting c i DetectTask"
  then show "\<not> detectionInProgress (fst (step c (DetectSettles i r)))"
    by (cases r) simp_all
next
  assume "awaiting c i CountTask"
  then show "\<not> detectionInProgress (fst (step c (CountSettles i (Rejected err) answer)))"
    by simp
next
  assume "awaiting c i CountTask"
  then show "awaiting (fst (step c (CountSettles i (Resolved n) answer))) i DetectTask"
    by (simp add: awaiting_def)
next
  assume "detectionInProgress (run page_loaded es)"
  moreover have "one_run (run page_loaded es)"
    using one_run_page_loaded by (rule one_run_run)
  ultimately show "\<exists>j. awaiting (run page_loaded es) j CountTask \<or>
                       awaiting (run page_loaded es) j DetectTask"
    by (rule run_task_pending [rotated])
qed

text \<open>A run that fails at the count, one that fails at the detection, and a cancelled one.\<close>

theorem run_resets_detectionInProgress_witness:
  "awaiting (run page_loaded [Click]) 0 CountTask \<and>
   \<not> detectionInProgress (run page_loaded [Click, CountSettles 0 (Rejected ''Failed to fetch'') None]) \<and>
   awaiting (run page_loaded [Click, CountSettles 0 (Resolved 5) None]) 0 DetectTask \<and>
   \<not> detectionInProgress (run page_loaded [Click, CountSettles 0 (Resolved 5) None,
        DetectSettles 0 (Rejected ''500 Internal Server Error'')]) \<and>
   \<not> detectionInProgress (run page_loaded [Click, CountSettles 0 (Resolved 5) None,
        DetectSettles 0 (Resolved partial_result)]) \<and>
   detectionInProgress (run page_loaded [Click])"
proof -
  let ?c1 = "run page_loaded [Click]"
  let ?c2 = "run page_loaded [Click, CountSettles 0 (Resolved 5) None]"
  have a1: "awaiting ?c1 0 CountTask" and d1: "detectionInProgress ?c1"
    by (simp_all add: run_def page_loaded_def awaiting_def)
  have a2: "awaiting ?c2 0 DetectTask"
    by (simp add: run_def page_loaded_def awaiting_def)
  have e1: "run page_loaded [Click, CountSettles 0 (Rejected ''Failed to fetch'') None] =
            fst (step ?c1 (CountSettles 0 (Rejected ''Failed to fetch'') None))"
    by (simp add: run_def)
  have e2: "run page_loaded [Click, CountSettles 0 (Resolved 5) None,
              DetectSettles 0 (Rejected ''500 Internal Server Error'')] =
            fst (step ?c2 (DetectSettles 0 (Rejected ''500 Internal Server Error'')))"
    by (simp add: run_def)
  have e3: "run page_loaded [Click, CountSettles 0 (Resolved 5) None,
              DetectSettles 0 (Resolved partial_result)] =
            fst (step ?c2 (DetectSettles 0 (Resolved partial_result)))"
    by (simp add: run_def)
  from run_resets_detectionInProgress [of ?c1 0 "Resolved partial_result" "''Failed to fetch''" None 5 "[Click]"] a1
  have w1: "\<not> detectionInProgress (fst (step ?c1 (CountSettles 0 (Rejected ''Failed to fetch'') None)))"
    by blast
  from run_resets_detectionInProgress [of ?c2 0 "Rejected ''500 Internal Server Error''"] a2
  have w2: "\<not> detectionInProgress (fst (step ?c2 (DetectSettles 0 (Rejected ''500 Internal Server Error''))))"
    by blast
  from run_resets_detectionInProgress [of ?c2 0 "Resolved partial_result"] a2
  have w3: "\<not> detectionInProgress (fst (step ?c2 (DetectSettles 0 (Resolved partial_result))))"
    by blast
  from a1 a2 d1 w1 w2 w3 show ?thesis unfolding e1 e2 e3 by blast
qed

text \<open>
  C7, as amended (a limit that is not a number). When the prompt is shown and the entry
  has no leading digits, \<open>parseInt\<close> gives \<open>NaN\<close>, the request body carries
  \<open>limit: null\<close>, and the handler does exactly what it does when the prompt is
  cancelled: it sends the detection request for all logs and reports nothing.
\<close>

theorem non_numeric_limit_not_reported:
  assumes "awaiting c i CountTask" and "10000 < count" and "parseInt userLimit = NaN"
  shows "step c (CountSettles i (Resolved count) (Some userLimit)) =
           (c\<lparr>tasks := (tasks c)[i := DetectTask]\<rparr>, [Fetch (PostDetect None)]) \<and>
         step c (CountSettles i (Resolved count) (Some userLimit)) =
           step c (CountSettles i (Resolved count) None)"
  using assms by (simp add: read_limit_def)

text \<open>25000 stored logs and the entry \<open>all of them\<close>.\<close>

theorem non_numeric_limit_not_reported_witness:
  "awaiting (run page_loaded [Click]) 0 CountTask \<and> (10000 :: int) < 25000 \<and>
   parseInt ''all of them'' = NaN \<and>
   snd (step (run page_loaded [Click]) (CountSettles 0 (Resolved 25000) (Some ''all of them''))) =
     [Fetch (PostDetect None)]"
proof -
  have a: "awaiting (run page_loaded [Click]) 0 CountTask"
    by (simp add: run_def page_loaded_def awaiting_def)
  have n: "(10000 :: int) < 25000" by simp
  have p: "parseInt ''all of them'' = NaN" by code_simp
  from non_numeric_limit_not_reported [OF a n p] a n p show ?thesis by simp
qed

text \<open>
  C7 as stated fails: with 20000 stored logs the entry \<open>abc\<close> opens no \<open>alert\<close> and
  sends the detection request with no limit, where the entry \<open>500\<close> sends the limit 500.
\<close>

theorem non_numeric_limit_counterexample:
  "snd (step (run page_loaded [Click]) (CountSettles 0 (Resolved 20000) (Some ''abc''))) =
     [Fetch (PostDetect None)] \<and>
   snd (step (run page_loaded [Click]) (CountSettles 0 (Resolved 20000) (Some ''500''))) =
     [Fetch (PostDetect (Some 500))]"
proof -
  have p: "parseInt ''abc'' = NaN" "parseInt ''500'' = Num 500" by code_simp+
  show ?thesis
    by (simp add: run_def page_loaded_def awaiting_def read_limit_def p)
qed

end
